theory Spec2Isabelle
  imports Main "HOL-Library.Sublist"
begin

section \<open>Data model\<close>

text \<open>
  The health check of the consul client library, as far as the watcher reads it. The
  watcher compares checks by \<open>ServiceID\<close> only and prints \<open>Node\<close> and
  \<open>ServiceName\<close>. The slice type \<open>api.HealthChecks\<close> holds pointers to checks; no
  check is ever written through its pointer, so a check is modelled by its value.
\<close>

record HealthCheck =
  Node :: string
  CheckID :: string
  Name :: string
  Status :: string
  Notes :: string
  Output :: string
  ServiceID :: string
  ServiceName :: string

type_synonym HealthChecks = "HealthCheck list"

text \<open>
  A Go slice that is not nil is a window of \<open>len\<close> cells at the start of a backing
  array. \<open>arr\<close> holds the cells of the backing array from the start of the slice on
  (the cells past \<open>len\<close> are the stale ones that \<open>del\<close> leaves behind). The nil slice is
  \<open>None\<close> of \<open>slice option\<close>.
\<close>

record slice =
  arr :: "HealthCheck list"
  len :: nat

definition elems :: "slice \<Rightarrow> HealthChecks" where
  "elems s = take (len s) (arr s)"

definition view :: "slice option \<Rightarrow> HealthChecks" where
  "view so = (case so of None \<Rightarrow> [] | Some s \<Rightarrow> elems s)"

definition mk_slice :: "HealthChecks \<Rightarrow> slice" where
  "mk_slice xs = \<lparr>arr = xs, len = length xs\<rparr>"

definition ids :: "HealthChecks \<Rightarrow> string set" where
  "ids xs = ServiceID ` set xs"

definition uniq :: "HealthChecks \<Rightarrow> bool" where
  "uniq xs = distinct (map ServiceID xs)"

section \<open>pos and del\<close>

text \<open>\<open>pos\<close>: the index of the first check with the service identifier of \<open>hc\<close>, or -1.\<close>

fun pos :: "HealthChecks \<Rightarrow> HealthCheck \<Rightarrow> int" where
  "pos [] hc = -1"
| "pos (c # hcs) hc =
     (if ServiceID c = ServiceID hc then 0
      else (let r = pos hcs hc in if r = -1 then -1 else r + 1))"

text \<open>
  \<open>del\<close> is \<open>append(hcs[:i], hcs[i+1:]...)\<close>: the capacity of \<open>hcs[:i]\<close> is that of
  \<open>hcs\<close>, so the append writes in place. The cells \<open>i+1 .. len-1\<close> move one place to
  the left, the cell \<open>len-1\<close> and all later ones keep their content, and the result is
  the same array with one cell less in the window. On the nil slice \<open>pos\<close> is -1 and
  \<open>del\<close> returns its argument.
\<close>

definition del :: "slice \<Rightarrow> HealthCheck \<Rightarrow> slice" where
  "del hcs hc =
     (let i = pos (elems hcs) hc in
      if i = -1 then hcs
      else \<lparr>arr = take (nat i) (arr hcs) @ drop (nat i + 1) (elems hcs)
                   @ drop (len hcs - 1) (arr hcs),
            len = len hcs - 1\<rparr>)"

text \<open>
  \<open>append(c.cc, check)\<close>: in place when the backing array has a free cell, into a new
  array otherwise (whose spare cells nobody reads before they are written).
\<close>

definition append1 :: "slice option \<Rightarrow> HealthCheck \<Rightarrow> slice" where
  "append1 so x =
     (case so of
        None \<Rightarrow> mk_slice [x]
      | Some s \<Rightarrow>
          if len s < length (arr s) then \<lparr>arr = (arr s)[len s := x], len = len s + 1\<rparr>
          else mk_slice (elems s @ [x]))"

section \<open>One diff tick\<close>

text \<open>The lines that \<open>infof\<close> prints during a tick, in the order of the calls.\<close>

datatype event = IsPassing HealthCheck | IsFailing HealthCheck

text \<open>
  The passing loop, \<open>for _, check := range c.cc\<close>. The range expression is evaluated
  once: the loop runs over the indices below the length \<open>n\<close> that \<open>c.cc\<close> had when the
  loop began and reads cell \<open>i\<close> of the backing array when iteration \<open>i\<close> begins,
  while the body replaces \<open>c.cc\<close> by \<open>del(c.cc, check)\<close>, which shares that array.
\<close>

function passing_loop ::
  "HealthChecks \<Rightarrow> nat \<Rightarrow> nat \<Rightarrow> slice \<Rightarrow> HealthChecks \<Rightarrow> event list
     \<Rightarrow> HealthChecks \<times> slice \<times> event list" where
  "passing_loop hc i n s pc lg =
     (if i < n then
        (let check = arr s ! i in
         if pos hc check \<noteq> -1 then passing_loop hc (i + 1) n s pc lg
         else passing_loop hc (i + 1) n (del s check) (pc @ [check]) (lg @ [IsPassing check]))
      else (pc, s, lg))"
  by pat_completeness auto
termination
  by (relation "measure (\<lambda>(hc, i, n, s, pc, lg). n - i)") auto

declare passing_loop.simps [simp del]

text \<open>The critical loop, \<open>for _, check := range hc\<close>.\<close>

fun critical_loop ::
  "HealthChecks \<Rightarrow> slice option \<Rightarrow> HealthChecks \<Rightarrow> event list
     \<Rightarrow> HealthChecks \<times> slice option \<times> event list" where
  "critical_loop [] so cc lg = (cc, so, lg)"
| "critical_loop (check # hc) so cc lg =
     (if pos (view so) check \<noteq> -1 then critical_loop hc so cc lg
      else critical_loop hc (Some (append1 so check)) (cc @ [check]) (lg @ [IsFailing check]))"

text \<open>
  The two loops of \<open>Next\<close> on the field \<open>c.cc\<close>, the accumulators \<open>cc\<close> and \<open>pc\<close> of
  the call, and the live failing set \<open>hc\<close>. Ranging over the nil slice runs no iteration.
\<close>

record tick_result =
  new_pc :: HealthChecks
  new_cc :: HealthChecks
  new_state :: "slice option"
  printed :: "event list"

definition tick :: "HealthChecks \<Rightarrow> slice option \<Rightarrow> HealthChecks \<Rightarrow> HealthChecks \<Rightarrow> tick_result" where
  "tick hc so cc pc =
     (let (pc', so1, lg1) =
            (case so of
               None \<Rightarrow> (pc, None, [])
             | Some s \<Rightarrow> (let (p, s', l) = passing_loop hc 0 (len s) s pc [] in (p, Some s', l)));
          (cc', so2, lg2) = critical_loop hc so1 cc lg1
      in \<lparr>new_pc = pc', new_cc = cc', new_state = so2, printed = lg2\<rparr>)"

text \<open>One tick from a stored snapshot \<open>A\<close>, on fresh accumulators.\<close>

definition tick_from :: "HealthChecks \<Rightarrow> HealthChecks \<Rightarrow> tick_result" where
  "tick_from A B = tick B (Some (mk_slice A)) [] []"

text \<open>Three checks of three services, used for concrete runs.\<close>

definition svc :: "string \<Rightarrow> HealthCheck" where
  "svc i = \<lparr>Node = ''node1'', CheckID = ''service:'' @ i, Name = ''check'',
     Status = ''critical'', Notes = [], Output = [], ServiceID = i, ServiceName = i\<rparr>"

section \<open>The state store: load and dump\<close>

text \<open>
  A Go \<open>error\<close> value is modelled by its message. The key-value store of consul is a
  map from keys to values. \<open>stateKey\<close> is the constant of \<open>consul/consul.go\<close> (the
  other variant of the file names the key \<open>consul-slack-state\<close> and is otherwise the
  same in \<open>load\<close>, \<open>dump\<close> and \<open>Next\<close>).
\<close>

type_synonym error = string

type_synonym kvstore = "string \<rightharpoonup> string"

definition stateKey :: string where
  "stateKey = ''consul-slack/state''"

definition lockKey :: string where
  "lockKey = ''consul-slack/.lock''"

text \<open>
  \<open>encoding/json\<close> is a library outside the repository, so the two calls the
  watcher makes are parameters. \<open>Marshal\<close> gets the elements of the slice (\<open>None\<close> for
  the nil slice) and returns the bytes or an error. \<open>Unmarshal\<close> gets the bytes and
  returns what it leaves in \<open>chs\<close>, which is the empty slice \<open>api.HealthChecks{}\<close>
  before the call, together with its error.
\<close>

record codec =
  Marshal :: "HealthChecks option \<Rightarrow> error + string"
  Unmarshal :: "string \<Rightarrow> HealthChecks option \<times> error option"

text \<open>
  \<open>load\<close>. \<open>get_err\<close> is the error of \<open>kvAPI.Get\<close>, \<open>kv stateKey = None\<close> is the
  answer \<open>kv == nil\<close> for a key that does not exist.
\<close>

definition load :: "codec \<Rightarrow> error option \<Rightarrow> kvstore \<Rightarrow> slice option \<times> error option" where
  "load J get_err kv =
     (case get_err of
        Some e \<Rightarrow> (None, Some e)
      | None \<Rightarrow>
          (case kv stateKey of
             None \<Rightarrow> (Some (mk_slice []), None)
           | Some v \<Rightarrow> (case Unmarshal J v of (chs, err) \<Rightarrow> (map_option mk_slice chs, err))))"

text \<open>
  \<open>dump\<close>. \<open>put_err\<close> is the error of \<open>kvAPI.Put\<close>; a put that fails leaves the
  store as it was.
\<close>

definition dump :: "codec \<Rightarrow> error option \<Rightarrow> slice option \<Rightarrow> kvstore \<Rightarrow> error option \<times> kvstore" where
  "dump J put_err chs kv =
     (case Marshal J (map_option elems chs) of
        Inl e \<Rightarrow> (Some e, kv)
      | Inr b \<Rightarrow>
          (case put_err of
             Some e \<Rightarrow> (Some e, kv)
           | None \<Rightarrow> (None, kv(stateKey \<mapsto> b))))"

section \<open>The client\<close>

text \<open>
  A channel of \<open>struct{}\<close> on which nobody sends is open or closed; closing a closed
  channel panics. A panic is modelled by its message.
\<close>

datatype chan = Open | Closed

datatype panic = Panic string

datatype 'a outcome = Returned 'a | Panicked panic

definition close_chan :: "chan \<Rightarrow> chan outcome" where
  "close_chan ch = (case ch of Open \<Rightarrow> Returned Closed
                    | Closed \<Rightarrow> Panicked (Panic ''close of closed channel''))"

text \<open>
  The struct \<open>Consul\<close>. \<open>lock\<close> is the session of the pair \<open>c.lock\<close> (\<open>None\<close> while
  the pointer is nil), \<open>c_cc\<close> is the field \<open>c.cc\<close>. The field \<open>locked\<close> belongs to
  \<open>consul/consul.go\<close>, the field \<open>lockCh\<close> (\<open>None\<close> for the nil channel) to the other
  variant of the file, which has \<open>Lock\<close> and \<open>Unlock\<close>. The API handles and the
  interval carry no state of their own: the answers of the API are arguments of the
  operations below.
\<close>

record Consul =
  lock :: "string option"
  locked :: bool
  lockCh :: "chan option"
  stopCh :: chan
  c_cc :: "slice option"

subsection \<open>consul/consul.go: New, startSession, Close\<close>

text \<open>
  The lock loop of \<open>startSession\<close>. Each round has the error of the blocking \<open>Get\<close>
  and the answer of \<open>Acquire\<close>. The loop may wait forever: when the answers run out
  without an acquisition the result is \<open>None\<close>.
\<close>

fun lock_loop :: "(error option \<times> (error + bool)) list \<Rightarrow> Consul \<Rightarrow> (error option \<times> Consul) option" where
  "lock_loop [] c = None"
| "lock_loop ((get_err, acq) # rs) c =
     (case get_err of
        Some e \<Rightarrow> Some (Some e, c)
      | None \<Rightarrow>
          (case acq of
             Inl e \<Rightarrow> Some (Some e, c)
           | Inr ok \<Rightarrow> if ok then Some (None, c\<lparr>locked := True\<rparr>) else lock_loop rs c))"

definition startSession ::
  "error + string \<Rightarrow> (error option \<times> (error + bool)) list \<Rightarrow> Consul \<Rightarrow> (error option \<times> Consul) option" where
  "startSession created rs c =
     (case created of
        Inl e \<Rightarrow> Some (Some e, c)
      | Inr sess \<Rightarrow> lock_loop rs (c\<lparr>lock := Some sess\<rparr>))"

text \<open>\<open>New\<close>, after the client is built: \<open>leader_err\<close> is the error of \<open>Status().Leader()\<close>.\<close>

definition New ::
  "error option \<Rightarrow> error + string \<Rightarrow> (error option \<times> (error + bool)) list \<Rightarrow> (error + Consul) option" where
  "New leader_err created rs =
     (case leader_err of
        Some e \<Rightarrow> Some (Inl e)
      | None \<Rightarrow>
          (case startSession created rs
                  \<lparr>lock = None, locked = False, lockCh = None, stopCh = Open, c_cc = None\<rparr> of
             None \<Rightarrow> None
           | Some (Some e, c) \<Rightarrow> Some (Inl e)
           | Some (None, c) \<Rightarrow> Some (Inr c)))"



subsection \<open>The other variant of the file: New, Close, Lock, Unlock\<close>

definition New_v :: "error option \<Rightarrow> error + string \<Rightarrow> error + Consul" where
  "New_v client_err created =
     (case client_err of
        Some e \<Rightarrow> Inl e
      | None \<Rightarrow>
          (case created of
             Inl e \<Rightarrow> Inl e
           | Inr sessionID \<Rightarrow>
               Inr \<lparr>lock = Some sessionID, locked = False, lockCh = None, stopCh = Open,
                    c_cc = None\<rparr>))"


text \<open>
  The loop of \<open>Lock\<close> over the answers of \<open>Acquire\<close>; it sleeps a second and tries
  again on \<open>false\<close>, and is still waiting (\<open>None\<close>) when the answers run out.
\<close>

fun acquire_loop :: "(error + bool) list \<Rightarrow> error option option" where
  "acquire_loop [] = None"
| "acquire_loop (Inl e # rs) = Some (Some e)"
| "acquire_loop (Inr ok # rs) = (if ok then Some None else acquire_loop rs)"

definition Lock :: "(error + bool) list \<Rightarrow> Consul \<Rightarrow> (error option \<times> Consul) outcome option" where
  "Lock rs c =
     (if lockCh c \<noteq> None then Some (Panicked (Panic ''already locked''))
      else (case acquire_loop rs of
              None \<Rightarrow> None
            | Some (Some e) \<Rightarrow> Some (Returned (Some e, c))
            | Some None \<Rightarrow> Some (Returned (None, c\<lparr>lockCh := Some Open\<rparr>))))"

definition Unlock :: "error option \<Rightarrow> Consul \<Rightarrow> (error option \<times> Consul) outcome" where
  "Unlock release_err c =
     (case lockCh c of
        None \<Rightarrow> Panicked (Panic ''not locked'')
      | Some ch \<Rightarrow>
          (case close_chan ch of
             Panicked p \<Rightarrow> Panicked p
           | Returned ch' \<Rightarrow> Returned (release_err, c\<lparr>lockCh := Some ch'\<rparr>)))"

section \<open>Next\<close>

text \<open>
  What the \<open>select\<close> of one round of the loop takes: the stop channel, which is ready
  once it has been closed, or the timer. With the timer come the answer of
  \<open>healthAPI.State("critical")\<close> and the error of the \<open>Put\<close> of this round.
\<close>

datatype select_case = StopCh | TimerC "error + HealthChecks" "error option"

text \<open>The \<open>return\<close> statement through which a call of \<open>Next\<close> leaves.\<close>

datatype exit_point = AtLoad | AtStop | AtState | AtDump | AtEvents

record next_result =
  exit :: exit_point
  ret_cc :: HealthChecks
  ret_pc :: HealthChecks
  ret_err :: "error option"
  client :: Consul
  store :: kvstore

text \<open>
  The loop of \<open>Next\<close> on the named results \<open>cc\<close>, \<open>pc\<close> and \<open>err\<close>. The call blocks
  as long as no round returns: the result is \<open>None\<close> when the rounds run out.
\<close>

fun Next_loop ::
  "codec \<Rightarrow> select_case list \<Rightarrow> Consul \<Rightarrow> kvstore \<Rightarrow> HealthChecks \<Rightarrow> HealthChecks \<Rightarrow> error option
     \<Rightarrow> next_result option" where
  "Next_loop J [] c kv cc pc err = None"
| "Next_loop J (StopCh # evs) c kv cc pc err =
     Some \<lparr>exit = AtStop, ret_cc = cc, ret_pc = pc, ret_err = err, client = c, store = kv\<rparr>"
| "Next_loop J (TimerC (Inl e) put_err # evs) c kv cc pc err =
     Some \<lparr>exit = AtState, ret_cc = cc, ret_pc = pc, ret_err = Some e, client = c, store = kv\<rparr>"
| "Next_loop J (TimerC (Inr hc) put_err # evs) c kv cc pc err =
     (let r = tick hc (c_cc c) cc pc;
          c' = c\<lparr>c_cc := new_state r\<rparr>;
          d = dump J put_err (new_state r) kv
      in if fst d \<noteq> None then
           Some \<lparr>exit = AtDump, ret_cc = new_cc r, ret_pc = new_pc r, ret_err = fst d,
                 client = c', store = snd d\<rparr>
         else if length (new_cc r) > 0 \<or> length (new_pc r) > 0 then
           Some \<lparr>exit = AtEvents, ret_cc = new_cc r, ret_pc = new_pc r, ret_err = fst d,
                 client = c', store = snd d\<rparr>
         else Next_loop J evs c' (snd d) (new_cc r) (new_pc r) (fst d))"

definition Next :: "codec \<Rightarrow> error option \<Rightarrow> select_case list \<Rightarrow> Consul \<Rightarrow> kvstore \<Rightarrow> next_result option" where
  "Next J get_err evs c kv =
     (if c_cc c = None then
        (let l = load J get_err kv; c' = c\<lparr>c_cc := fst l\<rparr>
         in if snd l \<noteq> None then
              Some \<lparr>exit = AtLoad, ret_cc = [], ret_pc = [], ret_err = snd l, client = c', store = kv\<rparr>
            else Next_loop J evs c' kv [] [] (snd l))
      else Next_loop J evs c kv [] [] None)"

section \<open>Predicates used in the statements\<close>

text \<open>The window of a slice lies inside its backing array.\<close>

definition wf_slice :: "slice \<Rightarrow> bool" where
  "wf_slice s = (len s \<le> length (arr s))"

definition wf_opt :: "slice option \<Rightarrow> bool" where
  "wf_opt so = (case so of None \<Rightarrow> True | Some s \<Rightarrow> wf_slice s)"




section \<open>A sample codec and sample clients for concrete runs\<close>

text \<open>
  A small codec that stands in for \<open>encoding/json\<close> in concrete runs: it writes the
  service identifiers, each followed by a semicolon, and \<open>null\<close> for the nil slice.
\<close>

fun split_ids :: "string \<Rightarrow> string \<Rightarrow> string list option" where
  "split_ids [] acc = (if acc = [] then Some [] else None)"
| "split_ids (ch # cs) acc =
     (if ch = CHR '';'' then map_option ((#) (rev acc)) (split_ids cs [])
      else split_ids cs (ch # acc))"

definition sample_codec :: codec where
  "sample_codec =
     \<lparr>Marshal = (\<lambda>xs. case xs of
                       None \<Rightarrow> Inr ''null''
                     | Some ys \<Rightarrow> Inr (concat (map (\<lambda>h. ServiceID h @ '';'') ys))),
      Unmarshal = (\<lambda>b. if b = ''null'' then (None, None)
                       else (case split_ids b [] of
                               None \<Rightarrow> (Some [], Some ''unexpected end of input'')
                             | Some is \<Rightarrow> (Some (map svc is), None)))\<rparr>"

text \<open>A client as \<open>New\<close> of \<open>consul/consul.go\<close> returns it, and one of the other variant.\<close>

definition fresh_client :: Consul where
  "fresh_client = \<lparr>lock = Some ''session-1'', locked = True, lockCh = None, stopCh = Open,
     c_cc = None\<rparr>"

definition fresh_client_v :: Consul where
  "fresh_client_v = \<lparr>lock = Some ''session-1'', locked = False, lockCh = None, stopCh = Open,
     c_cc = None\<rparr>"

text \<open>A client of \<open>consul/consul.go\<close> whose snapshot holds the check of \<open>db\<close>.\<close>

definition watching_db :: Consul where
  "watching_db = fresh_client\<lparr>c_cc := Some (mk_slice [svc ''db''])\<rparr>"

section \<open>Lemmas about pos, del and the two loops\<close>

lemma pos_ge: "- 1 \<le> pos xs x"
  by (induction xs) (auto simp: Let_def)

lemma pos_absent_iff: "pos xs x = - 1 \<longleftrightarrow> ServiceID x \<notin> ids xs"
proof (induction xs)
  case Nil
  show ?case by (simp add: ids_def)
next
  case (Cons c xs)
  have "- 1 \<le> pos xs x" by (rule pos_ge)
  with Cons show ?case by (auto simp: ids_def Let_def)
qed

lemma pos_found:
  "pos xs x \<noteq> - 1 \<Longrightarrow>
     0 \<le> pos xs x \<and> nat (pos xs x) < length xs \<and> ServiceID (xs ! nat (pos xs x)) = ServiceID x"
proof (induction xs)
  case Nil
  then show ?case by simp
next
  case (Cons c xs)
  show ?case
  proof (cases "ServiceID c = ServiceID x")
    case True
    then show ?thesis by simp
  next
    case False
    with Cons.prems have ne: "pos xs x \<noteq> - 1" by (auto simp: Let_def split: if_splits)
    from Cons.IH [OF ne] have ih: "0 \<le> pos xs x" "nat (pos xs x) < length xs"
      "ServiceID (xs ! nat (pos xs x)) = ServiceID x" by auto
    have "pos (c # xs) x = pos xs x + 1" using False ne by (simp add: Let_def)
    moreover have "nat (pos xs x + 1) = Suc (nat (pos xs x))" using ih(1) by simp
    ultimately show ?thesis using ih by simp
  qed
qed

lemma elems_del:
  assumes "wf_slice s"
  shows "elems (del s x) =
    (if pos (elems s) x = - 1 then elems s
     else take (nat (pos (elems s) x)) (elems s) @ drop (nat (pos (elems s) x) + 1) (elems s))"
proof (cases "pos (elems s) x = - 1")
  case True
  then show ?thesis by (simp add: del_def)
next
  case False
  define k where "k = nat (pos (elems s) x)"
  from pos_found [OF False] have k: "k < length (elems s)" by (simp add: k_def)
  have le: "len s \<le> length (arr s)" using assms by (simp add: wf_slice_def)
  have lk: "k < len s" using k le by (simp add: elems_def)
  have "elems (del s x) = take (len s - 1) (take k (arr s) @ drop (k + 1) (elems s) @ drop (len s - 1) (arr s))"
    using False by (simp add: del_def elems_def k_def Let_def)
  also have "\<dots> = take k (arr s) @ drop (k + 1) (elems s)"
    using lk le by (auto simp: elems_def min_def intro: arg_cong [where f="\<lambda>n. take n (arr s)"])
  also have "take k (arr s) = take k (elems s)"
    using lk by (simp add: elems_def min_def)
  finally show ?thesis using False by (simp add: k_def)
qed

lemma wf_del: "wf_slice s \<Longrightarrow> wf_slice (del s x)"
  apply (cases "pos (elems s) x = - 1")
   apply (simp add: del_def)
  apply (frule pos_found)
  apply (auto simp: del_def wf_slice_def elems_def Let_def min_def)
  done

lemma length_arr_del: "wf_slice s \<Longrightarrow> length (arr (del s x)) = length (arr s)"
  apply (cases "pos (elems s) x = - 1")
   apply (simp add: del_def)
  apply (frule pos_found)
  apply (auto simp: del_def wf_slice_def elems_def Let_def min_def)
  done

lemma subseq_del: "wf_slice s \<Longrightarrow> subseq (elems (del s x)) (elems s)"
proof -
  assume w: "wf_slice s"
  show ?thesis
  proof (cases "pos (elems s) x = - 1")
    case True
    then show ?thesis using w by (simp add: elems_del)
  next
    case False
    let ?k = "nat (pos (elems s) x)"
    have "subseq (take ?k (elems s) @ drop (?k + 1) (elems s)) (take ?k (elems s) @ drop ?k (elems s))"
    proof (intro list_emb_append_mono subseq_order.order_refl)
      have "suffix (drop 1 (drop ?k (elems s))) (drop ?k (elems s))" by (rule suffix_drop)
      then show "subseq (drop (?k + 1) (elems s)) (drop ?k (elems s))"
        by (simp add: suffix_imp_subseq add.commute)
    qed
    then show ?thesis using w False by (simp add: elems_del)
  qed
qed

lemma nth_arr_del:
  assumes w: "wf_slice s" and f: "pos (elems s) x \<noteq> - 1" and j: "j < length (arr s)"
  shows "arr (del s x) ! j =
     (if j < nat (pos (elems s) x) then arr s ! j
      else if j < len s - 1 then arr s ! (j + 1) else arr s ! j)"
proof -
  define k where "k = nat (pos (elems s) x)"
  from pos_found [OF f] have "k < length (elems s)" by (simp add: k_def)
  moreover have le: "len s \<le> length (arr s)" using w by (simp add: wf_slice_def)
  ultimately have lk: "k < len s" by (simp add: elems_def)
  have a: "arr (del s x) = take k (arr s) @ drop (k + 1) (elems s) @ drop (len s - 1) (arr s)"
    using f by (simp add: del_def k_def Let_def)
  have l1: "length (take k (arr s)) = k" using lk le by simp
  have l2: "length (drop (k + 1) (elems s)) = len s - 1 - k" using lk le by (simp add: elems_def)
  show ?thesis
  proof (cases "j < k")
    case True
    then show ?thesis using a l1 by (simp add: nth_append k_def [symmetric])
  next
    case nk: False
    show ?thesis
    proof (cases "j < len s - 1")
      case True
      have "arr (del s x) ! j = drop (k + 1) (elems s) ! (j - k)"
        using a l1 l2 nk True by (simp add: nth_append)
      also have "\<dots> = arr s ! (j + 1)"
        using nk True lk le by (simp add: elems_def)
      finally show ?thesis using nk True by (simp add: k_def [symmetric])
    next
      case False
      have "arr (del s x) ! j = drop (len s - 1) (arr s) ! (j - k - (len s - 1 - k))"
        using a l1 l2 nk False by (simp add: nth_append)
      also have "\<dots> = arr s ! j"
        using nk False lk le j by simp
      finally show ?thesis using nk False by (simp add: k_def [symmetric])
    qed
  qed
qed

lemma cell_del:
  assumes w: "wf_slice s" and n: "len s \<le> n" "n \<le> length (arr s)" and j: "j < n"
  shows "\<exists>j'. j \<le> j' \<and> j' < n \<and> arr (del s x) ! j = arr s ! j'"
proof (cases "pos (elems s) x = - 1")
  case True
  then show ?thesis using j by (auto simp: del_def)
next
  case False
  have jl: "j < length (arr s)" using j n by simp
  note e = nth_arr_del [OF w False jl]
  show ?thesis
  proof (cases "j < nat (pos (elems s) x) \<or> \<not> j < len s - 1")
    case True
    then have "arr (del s x) ! j = arr s ! j" using e by auto
    then show ?thesis using j by blast
  next
    case False
    then have "arr (del s x) ! j = arr s ! (j + 1)" "j + 1 < n" using e n by auto
    then show ?thesis by (intro exI [of _ "j + 1"]) simp
  qed
qed


lemma len_del_le: "len (del s x) \<le> len s"
  by (simp add: del_def Let_def)

lemma passing_loop_inv:
  assumes "len s \<le> n" "n \<le> length (arr s)"
    and "passing_loop hc i n s pc lg = (pc', s', lg')"
  shows "wf_slice s' \<and> len s' \<le> n \<and> n \<le> length (arr s') \<and> subseq (elems s') (elems s) \<and>
     (\<exists>ps. pc' = pc @ ps \<and> lg' = lg @ map IsPassing ps \<and>
        (\<forall>p\<in>set ps. pos hc p = - 1 \<and> (\<exists>j. i \<le> j \<and> j < n \<and> p = arr s ! j)))"
  using assms
proof (induction hc i n s pc lg rule: passing_loop.induct)
  case (1 hc i n s pc lg)
  have w: "wf_slice s" using "1.prems" by (simp add: wf_slice_def)
  show ?case
  proof (cases "i < n")
    case False
    then have "pc' = pc" "s' = s" "lg' = lg" using "1.prems"(3) by (simp_all add: passing_loop.simps)
    then show ?thesis using w "1.prems" by simp
  next
    case lt: True
    define check where "check = arr s ! i"
    show ?thesis
    proof (cases "pos hc check \<noteq> - 1")
      case True
      then have run: "passing_loop hc (i + 1) n s pc lg = (pc', s', lg')"
        using "1.prems"(3) lt by (subst (asm) passing_loop.simps) (simp add: check_def Let_def)
      from "1.IH"(1) [OF lt check_def True "1.prems"(1,2) run]
      obtain ps where ih: "wf_slice s'" "len s' \<le> n" "n \<le> length (arr s')"
          "subseq (elems s') (elems s)" "pc' = pc @ ps" "lg' = lg @ map IsPassing ps"
          "\<forall>p\<in>set ps. pos hc p = - 1 \<and> (\<exists>j. i + 1 \<le> j \<and> j < n \<and> p = arr s ! j)"
        by blast
      have "\<forall>p\<in>set ps. pos hc p = - 1 \<and> (\<exists>j. i \<le> j \<and> j < n \<and> p = arr s ! j)"
        using ih(7) by (metis Suc_eq_plus1 Suc_leD)
      then show ?thesis using ih(1-6) by blast
    next
      case False
      then have run: "passing_loop hc (i + 1) n (del s check) (pc @ [check]) (lg @ [IsPassing check]) = (pc', s', lg')"
        using "1.prems"(3) lt by (subst (asm) passing_loop.simps) (simp add: check_def Let_def)
      have p1: "len (del s check) \<le> n" using len_del_le [of s check] "1.prems"(1) by simp
      have p2: "n \<le> length (arr (del s check))" using "1.prems"(2) w by (simp add: length_arr_del)
      from "1.IH"(2) [OF lt check_def False p1 p2 run]
      obtain ps where ih: "wf_slice s'" "len s' \<le> n" "n \<le> length (arr s')"
          "subseq (elems s') (elems (del s check))"
          "pc' = (pc @ [check]) @ ps" "lg' = (lg @ [IsPassing check]) @ map IsPassing ps"
          "\<forall>p\<in>set ps. pos hc p = - 1 \<and> (\<exists>j. i + 1 \<le> j \<and> j < n \<and> p = arr (del s check) ! j)"
        by blast
      have sub: "subseq (elems s') (elems s)"
        using ih(4) subseq_del [OF w, of check] by (rule subseq_order.order_trans)
      have cells: "\<forall>p\<in>set (check # ps). pos hc p = - 1 \<and> (\<exists>j. i \<le> j \<and> j < n \<and> p = arr s ! j)"
      proof
        fix p assume "p \<in> set (check # ps)"
        then consider "p = check" | "p \<in> set ps" by auto
        then show "pos hc p = - 1 \<and> (\<exists>j. i \<le> j \<and> j < n \<and> p = arr s ! j)"
        proof cases
          case 1
          then show ?thesis using False lt check_def by auto
        next
          case 2
          with ih(7) obtain j where j: "pos hc p = - 1" "i + 1 \<le> j" "j < n" "p = arr (del s check) ! j"
            by blast
          from cell_del [OF w "1.prems"(1,2) j(3), of check]
          obtain j' where "j \<le> j'" "j' < n" "arr (del s check) ! j = arr s ! j'" by blast
          then show ?thesis using j by (intro conjI exI [of _ j']) auto
        qed
      qed
      show ?thesis
        using ih(1,2,3) sub cells ih(5,6)
        by (intro conjI exI [of _ "check # ps"]) simp_all
    qed
  qed
qed


lemma view_append1: "wf_opt so \<Longrightarrow> view (Some (append1 so x)) = view so @ [x]"
  by (auto simp: wf_opt_def wf_slice_def view_def append1_def elems_def mk_slice_def
      take_Suc_conv_app_nth split: option.splits)

lemma wf_append1: "wf_opt so \<Longrightarrow> wf_opt (Some (append1 so x))"
  by (auto simp: wf_opt_def wf_slice_def append1_def elems_def mk_slice_def split: option.splits)

lemma critical_loop_inv:
  assumes "wf_opt so" and "critical_loop hc so cc lg = (cc', so', lg')"
  shows "wf_opt so' \<and>
     (\<exists>cs. cc' = cc @ cs \<and> lg' = lg @ map IsFailing cs \<and> view so' = view so @ cs \<and> subseq cs hc)"
  using assms
proof (induction hc arbitrary: so cc lg)
  case Nil
  then show ?case by simp
next
  case (Cons check hc)
  show ?case
  proof (cases "pos (view so) check \<noteq> - 1")
    case True
    then have "critical_loop hc so cc lg = (cc', so', lg')" using Cons.prems(2) by simp
    from Cons.IH [OF Cons.prems(1) this] show ?thesis by auto
  next
    case False
    then have run: "critical_loop hc (Some (append1 so check)) (cc @ [check]) (lg @ [IsFailing check])
        = (cc', so', lg')" using Cons.prems(2) by simp
    from Cons.IH [OF wf_append1 [OF Cons.prems(1)] run]
    obtain cs where ih: "wf_opt so'" "cc' = (cc @ [check]) @ cs"
        "lg' = (lg @ [IsFailing check]) @ map IsFailing cs"
        "view so' = view (Some (append1 so check)) @ cs" "subseq cs hc" by blast
    show ?thesis
      using ih Cons.prems(1)
      by (intro conjI exI [of _ "check # cs"]) (simp_all add: view_append1)
  qed
qed

lemma critical_loop_uniq:
  "wf_opt so \<Longrightarrow> uniq (view so) \<Longrightarrow> critical_loop hc so cc lg = (cc', so', lg') \<Longrightarrow> uniq (view so')"
proof (induction hc arbitrary: so cc lg)
  case Nil
  then show ?case by simp
next
  case (Cons check hc)
  show ?case
  proof (cases "pos (view so) check \<noteq> - 1")
    case True
    then have "critical_loop hc so cc lg = (cc', so', lg')" using Cons.prems(3) by simp
    from Cons.IH [OF Cons.prems(1,2) this] show ?thesis .
  next
    case False
    then have run: "critical_loop hc (Some (append1 so check)) (cc @ [check]) (lg @ [IsFailing check])
        = (cc', so', lg')" using Cons.prems(3) by simp
    from False have "ServiceID check \<notin> ids (view so)" by (simp add: pos_absent_iff)
    then have u: "uniq (view (Some (append1 so check)))"
      using Cons.prems(1,2) by (simp add: view_append1 uniq_def ids_def)
    from Cons.IH [OF wf_append1 [OF Cons.prems(1)] u run] show ?thesis .
  qed
qed

lemma critical_loop_ids:
  "wf_opt so \<Longrightarrow> critical_loop hc so cc lg = (cc', so', lg') \<Longrightarrow> ids (view so') = ids (view so) \<union> ids hc"
proof (induction hc arbitrary: so cc lg)
  case Nil
  then show ?case by (simp add: ids_def)
next
  case (Cons check hc)
  show ?case
  proof (cases "pos (view so) check \<noteq> - 1")
    case True
    then have "critical_loop hc so cc lg = (cc', so', lg')" using Cons.prems(2) by simp
    from Cons.IH [OF Cons.prems(1) this] True show ?thesis
      by (auto simp: pos_absent_iff ids_def)
  next
    case False
    then have run: "critical_loop hc (Some (append1 so check)) (cc @ [check]) (lg @ [IsFailing check])
        = (cc', so', lg')" using Cons.prems(2) by simp
    from Cons.IH [OF wf_append1 [OF Cons.prems(1)] run] Cons.prems(1) show ?thesis
      by (auto simp: view_append1 ids_def)
  qed
qed

lemma subseq_uniq: "subseq xs ys \<Longrightarrow> uniq ys \<Longrightarrow> uniq xs"
proof -
  assume a: "subseq xs ys" "uniq ys"
  have "subseq (map ServiceID xs) (map ServiceID ys)" using a(1) by (rule subseq_map)
  then obtain N where "map ServiceID xs = nths (map ServiceID ys) N"
    unfolding subseq_conv_nths by blast
  then show "uniq xs" using a(2) by (simp add: uniq_def)
qed



lemma tick_None:
  "critical_loop hc None cc [] = (cc', so', lg') \<Longrightarrow>
   tick hc None cc pc = \<lparr>new_pc = pc, new_cc = cc', new_state = so', printed = lg'\<rparr>"
  by (simp add: tick_def)

lemma tick_Some:
  "passing_loop hc 0 (len s) s pc [] = (pc', s1, lg1) \<Longrightarrow>
   critical_loop hc (Some s1) cc lg1 = (cc', so', lg') \<Longrightarrow>
   tick hc (Some s) cc pc = \<lparr>new_pc = pc', new_cc = cc', new_state = so', printed = lg'\<rparr>"
  by (simp add: tick_def)

lemma wf_tick: "wf_opt so \<Longrightarrow> wf_opt (new_state (tick hc so cc pc))"
proof (cases so)
  case None
  assume w: "wf_opt so"
  obtain cc' so' lg' where c: "critical_loop hc None cc [] = (cc', so', lg')"
    by (cases "critical_loop hc None cc []") auto
  from critical_loop_inv [OF _ c] have "wf_opt so'" by (simp add: wf_opt_def)
  then show ?thesis using tick_None [OF c] None by simp
next
  case (Some s)
  assume w: "wf_opt so"
  then have le: "len s \<le> length (arr s)" using Some by (simp add: wf_opt_def wf_slice_def)
  obtain pc' s1 lg1 where p: "passing_loop hc 0 (len s) s pc [] = (pc', s1, lg1)"
    by (cases "passing_loop hc 0 (len s) s pc []") auto
  obtain cc' so' lg' where c: "critical_loop hc (Some s1) cc lg1 = (cc', so', lg')"
    by (cases "critical_loop hc (Some s1) cc lg1") auto
  from passing_loop_inv [OF order_refl le p] have "wf_slice s1" by auto
  then have "wf_opt so'" using critical_loop_inv [OF _ c] by (simp add: wf_opt_def)
  then show ?thesis using tick_Some [OF p c] Some by simp
qed

lemma wf_load: "wf_opt (fst (load J get_err kv))"
  by (auto simp: load_def wf_opt_def wf_slice_def mk_slice_def split: option.splits prod.splits)

lemma passing_loop_absent:
  "passing_loop hc i n s pc lg = (pc', s', lg') \<Longrightarrow>
     \<exists>ps. pc' = pc @ ps \<and> (\<forall>p\<in>set ps. pos hc p = - 1)"
proof (induction hc i n s pc lg rule: passing_loop.induct)
  case (1 hc i n s pc lg)
  show ?case
  proof (cases "i < n")
    case False
    then show ?thesis using "1.prems" by (simp add: passing_loop.simps)
  next
    case lt: True
    define check where "check = arr s ! i"
    show ?thesis
    proof (cases "pos hc check \<noteq> - 1")
      case True
      then have "passing_loop hc (i + 1) n s pc lg = (pc', s', lg')"
        using "1.prems" lt by (subst (asm) passing_loop.simps) (simp add: check_def Let_def)
      from "1.IH"(1) [OF lt check_def True this] show ?thesis .
    next
      case False
      then have "passing_loop hc (i + 1) n (del s check) (pc @ [check]) (lg @ [IsPassing check]) = (pc', s', lg')"
        using "1.prems" lt by (subst (asm) passing_loop.simps) (simp add: check_def Let_def)
      from "1.IH"(2) [OF lt check_def False this]
      obtain ps where "pc' = (pc @ [check]) @ ps" "\<forall>p\<in>set ps. pos hc p = - 1" by blast
      then show ?thesis using False by (intro exI [of _ "check # ps"]) simp
    qed
  qed
qed

lemma critical_loop_from:
  "critical_loop hc so cc lg = (cc', so', lg') \<Longrightarrow> \<exists>cs. cc' = cc @ cs \<and> set cs \<subseteq> set hc"
proof (induction hc arbitrary: so cc lg)
  case Nil
  then show ?case by simp
next
  case (Cons check hc)
  show ?case
  proof (cases "pos (view so) check \<noteq> - 1")
    case True
    then have "critical_loop hc so cc lg = (cc', so', lg')" using Cons.prems by simp
    from Cons.IH [OF this] show ?thesis by auto
  next
    case False
    then have "critical_loop hc (Some (append1 so check)) (cc @ [check]) (lg @ [IsFailing check])
        = (cc', so', lg')" using Cons.prems by simp
    from Cons.IH [OF this] obtain cs where "cc' = (cc @ [check]) @ cs" "set cs \<subseteq> set hc" by blast
    then show ?thesis by (intro exI [of _ "check # cs"]) auto
  qed
qed

lemma Next_loop_stop:
  "Next_loop J evs c kv [] [] None = Some r \<Longrightarrow> exit r = AtStop \<Longrightarrow>
     ret_cc r = [] \<and> ret_pc r = [] \<and> ret_err r = None"
proof (induction evs arbitrary: c kv)
  case Nil
  then show ?case by simp
next
  case (Cons ev evs)
  show ?case
  proof (cases ev)
    case StopCh
    then show ?thesis using Cons.prems by auto
  next
    case (TimerC st put_err)
    show ?thesis
    proof (cases st)
      case (Inl e)
      then show ?thesis using Cons.prems TimerC by auto
    next
      case (Inr hc)
      define t where "t = tick hc (c_cc c) [] []"
      define d where "d = dump J put_err (new_state t) kv"
      show ?thesis
      proof (cases "fst d \<noteq> None \<or> length (new_cc t) > 0 \<or> length (new_pc t) > 0")
        case True
        then have "exit r \<noteq> AtStop" using Cons.prems(1) TimerC Inr
          by (auto simp: Let_def t_def d_def split: if_splits)
        then show ?thesis using Cons.prems(2) by simp
      next
        case False
        then have "Next_loop J evs (c\<lparr>c_cc := new_state t\<rparr>) (snd d) [] [] None = Some r"
          using Cons.prems(1) TimerC Inr by (simp add: Let_def t_def d_def)
        from Cons.IH [OF this Cons.prems(2)] show ?thesis .
      qed
    qed
  qed
qed

lemma dump_ok:
  "dump J put_err chs kv = (None, kv') \<Longrightarrow>
     \<exists>b. Marshal J (map_option elems chs) = Inr b \<and> put_err = None \<and> kv' = kv(stateKey \<mapsto> b)"
  by (auto simp: dump_def split: sum.splits option.splits)

lemma Next_loop_events:
  "Next_loop J evs c kv [] [] None = Some r \<Longrightarrow> ret_err r = None \<Longrightarrow> ret_cc r \<noteq> [] \<or> ret_pc r \<noteq> [] \<Longrightarrow>
     exit r = AtEvents \<and> (\<exists>b. Marshal J (map_option elems (c_cc (client r))) = Inr b \<and> store r stateKey = Some b)"
proof (induction evs arbitrary: c kv)
  case Nil
  then show ?case by simp
next
  case (Cons ev evs)
  show ?case
  proof (cases ev)
    case StopCh
    then show ?thesis using Cons.prems by auto
  next
    case (TimerC st put_err)
    show ?thesis
    proof (cases st)
      case (Inl e)
      then show ?thesis using Cons.prems TimerC by auto
    next
      case (Inr hc)
      define t where "t = tick hc (c_cc c) [] []"
      define d where "d = dump J put_err (new_state t) kv"
      show ?thesis
      proof (cases "fst d \<noteq> None")
        case True
        then have "ret_err r \<noteq> None" using Cons.prems(1) TimerC Inr
          by (auto simp: Let_def t_def d_def)
        then show ?thesis using Cons.prems(2) by simp
      next
        case ok: False
        then have dd: "dump J put_err (new_state t) kv = (None, snd d)"
          by (simp add: d_def prod_eq_iff)
        show ?thesis
        proof (cases "length (new_cc t) > 0 \<or> length (new_pc t) > 0")
          case True
          then have r: "r = \<lparr>exit = AtEvents, ret_cc = new_cc t, ret_pc = new_pc t, ret_err = fst d,
                 client = c\<lparr>c_cc := new_state t\<rparr>, store = snd d\<rparr>"
            using Cons.prems(1) TimerC Inr ok by (simp add: Let_def t_def d_def)
          from dump_ok [OF dd] show ?thesis using r by auto
        next
          case False
          then have "Next_loop J evs (c\<lparr>c_cc := new_state t\<rparr>) (snd d) [] [] None = Some r"
            using Cons.prems(1) TimerC Inr ok by (simp add: Let_def t_def d_def)
          from Cons.IH [OF this Cons.prems(2,3)] show ?thesis .
        qed
      qed
    qed
  qed
qed

lemma Next_loop_quiet_tick:
  "new_cc (tick hc (c_cc c) [] []) = [] \<Longrightarrow> new_pc (tick hc (c_cc c) [] []) = [] \<Longrightarrow>
   dump J put_err (new_state (tick hc (c_cc c) [] [])) kv = (None, kv') \<Longrightarrow>
   Next_loop J (TimerC (Inr hc) put_err # evs) c kv [] [] None =
     Next_loop J evs (c\<lparr>c_cc := new_state (tick hc (c_cc c) [] [])\<rparr>) kv' [] [] None"
  by (simp add: Let_def)



lemma lock_loop_locked:
  "lock_loop rs c = Some (None, c') \<Longrightarrow> locked c' \<and> lock c' = lock c"
proof (induction rs)
  case Nil
  then show ?case by simp
next
  case (Cons r rs)
  obtain get_err acq where r: "r = (get_err, acq)" by (cases r) auto
  show ?case
    using Cons r by (auto split: option.splits sum.splits if_splits)
qed

lemma New_locked:
  "New leader_err created rs = Some (Inr c) \<Longrightarrow> locked c \<and> lock c \<noteq> None"
  by (auto simp: New_def startSession_def split: option.splits sum.splits prod.splits
      dest: lock_loop_locked)

section \<open>Concrete runs\<close>

lemma tick_nothing:
  "tick [] (Some (mk_slice [])) [] [] =
     \<lparr>new_pc = [], new_cc = [], new_state = Some (mk_slice []), printed = []\<rparr>"
  by code_simp

lemma tick_db_still_failing:
  "tick [svc ''db''] (Some (mk_slice [svc ''db''])) [] [] =
     \<lparr>new_pc = [], new_cc = [], new_state = Some (mk_slice [svc ''db'']), printed = []\<rparr>"
  by code_simp

lemma tick_api_fails:
  "tick [svc ''db'', svc ''api''] (Some (mk_slice [svc ''db''])) [] [] =
     \<lparr>new_pc = [], new_cc = [svc ''api''], new_state = Some (mk_slice [svc ''db'', svc ''api'']),
      printed = [IsFailing (svc ''api'')]\<rparr>"
  by code_simp

lemma marshal_sample:
  "Marshal sample_codec (Some (elems (mk_slice []))) = Inr []"
  "Marshal sample_codec (Some (elems (mk_slice [svc ''db'']))) = Inr ''db;''"
  "Marshal sample_codec (Some (elems (mk_slice [svc ''db'', svc ''api'']))) = Inr ''db;api;''"
  by (simp_all add: sample_codec_def elems_def mk_slice_def svc_def)

section \<open>The claims\<close>

text \<open>
  \<^bold>\<open>C1.\<close> One tick from a stored snapshot \<open>A\<close> against the live failing set \<open>B\<close>
  should leave a snapshot with exactly the service identifiers of \<open>B\<close>. The passing
  loop deletes from the slice it ranges over, so it skips the check that moves into the
  cell it has just read. From the snapshot of \<open>web\<close>, \<open>db\<close> and \<open>cache\<close> with
  nothing failing any more, the tick reports \<open>web\<close>, \<open>cache\<close> and \<open>cache\<close> again
  as passing and leaves \<open>db\<close> in the snapshot, although the live set is empty.
\<close>

theorem tick_snapshot_differs_from_live:
  "uniq [svc ''web'', svc ''db'', svc ''cache''] \<and> uniq [] \<and>
   map ServiceID (view (new_state (tick_from [svc ''web'', svc ''db'', svc ''cache''] []))) = [''db''] \<and>
   map ServiceID (new_pc (tick_from [svc ''web'', svc ''db'', svc ''cache''] [])) = [''web'', ''cache'', ''cache''] \<and>
   ids (view (new_state (tick_from [svc ''web'', svc ''db'', svc ''cache''] []))) \<noteq> ids []"
  by code_simp

text \<open>
  \<^bold>\<open>C2.\<close> When \<open>Next\<close> returns a batch that is not empty and no error, it has left
  through the return after the events check, and the store holds under the state key
  the bytes that \<open>Marshal\<close> gives for the snapshot now in memory: the dump of this
  round succeeded before the return. A round whose tick yields no event and whose dump
  succeeds does not return: the loop goes on with the next round on the updated
  snapshot and store, and blocks if there is none.
\<close>

theorem Next_persists_before_return:
  "(Next J get_err evs c kv = Some r \<and> ret_err r = None \<and> (ret_cc r \<noteq> [] \<or> ret_pc r \<noteq> []) \<longrightarrow>
      exit r = AtEvents \<and>
      (\<exists>b. Marshal J (map_option elems (c_cc (client r))) = Inr b \<and> store r stateKey = Some b))
   \<and> (new_cc (tick hc (c_cc c) [] []) = [] \<and> new_pc (tick hc (c_cc c) [] []) = [] \<and>
        dump J put_err (new_state (tick hc (c_cc c) [] [])) kv = (None, kv') \<longrightarrow>
        Next_loop J (TimerC (Inr hc) put_err # evs) c kv [] [] None =
          Next_loop J evs (c\<lparr>c_cc := new_state (tick hc (c_cc c) [] [])\<rparr>) kv' [] [] None
      \<and> Next_loop J [TimerC (Inr hc) put_err] c kv [] [] None = None)"
proof (intro conjI impI)
  assume a: "Next J get_err evs c kv = Some r \<and> ret_err r = None \<and> (ret_cc r \<noteq> [] \<or> ret_pc r \<noteq> [])"
  then have "\<exists>c0. Next_loop J evs c0 kv [] [] None = Some r"
    unfolding Next_def by (auto simp: Let_def split: if_splits)
  then obtain c0 where "Next_loop J evs c0 kv [] [] None = Some r" by blast
  from Next_loop_events [OF this] a
  show "exit r = AtEvents"
    and "\<exists>b. Marshal J (map_option elems (c_cc (client r))) = Inr b \<and> store r stateKey = Some b"
    by auto
next
  assume "new_cc (tick hc (c_cc c) [] []) = [] \<and> new_pc (tick hc (c_cc c) [] []) = [] \<and>
        dump J put_err (new_state (tick hc (c_cc c) [] [])) kv = (None, kv')"
  then show "Next_loop J (TimerC (Inr hc) put_err # evs) c kv [] [] None =
          Next_loop J evs (c\<lparr>c_cc := new_state (tick hc (c_cc c) [] [])\<rparr>) kv' [] [] None"
    and "Next_loop J [TimerC (Inr hc) put_err] c kv [] [] None = None"
    by (simp_all add: Let_def)
qed

theorem Next_persists_before_return_witness:
  "Next sample_codec None [TimerC (Inr [svc ''db'']) None, TimerC (Inr [svc ''db'', svc ''api'']) None]
       watching_db Map.empty =
     Some \<lparr>exit = AtEvents, ret_cc = [svc ''api''], ret_pc = [], ret_err = None,
           client = watching_db\<lparr>c_cc := Some (mk_slice [svc ''db'', svc ''api''])\<rparr>,
           store = [stateKey \<mapsto> ''db;api;'']\<rparr>
   \<and> Marshal sample_codec (map_option elems (Some (mk_slice [svc ''db'', svc ''api'']))) = Inr ''db;api;''
   \<and> dump sample_codec None (new_state (tick [svc ''db''] (c_cc watching_db) [] [])) Map.empty
        = (None, [stateKey \<mapsto> ''db;''])
   \<and> Next_loop sample_codec [TimerC (Inr [svc ''db'']) None] watching_db Map.empty [] [] None = None"
proof -
  let ?r = "\<lparr>exit = AtEvents, ret_cc = [svc ''api''], ret_pc = [], ret_err = None,
           client = watching_db\<lparr>c_cc := Some (mk_slice [svc ''db'', svc ''api''])\<rparr>,
           store = [stateKey \<mapsto> ''db;api;'']\<rparr>"
  have h1: "Next sample_codec None [TimerC (Inr [svc ''db'']) None, TimerC (Inr [svc ''db'', svc ''api'']) None]
       watching_db Map.empty = Some ?r"
    by (simp add: Next_def watching_db_def fresh_client_def tick_db_still_failing tick_api_fails
        dump_def marshal_sample)
  have h2: "ret_err ?r = None \<and> (ret_cc ?r \<noteq> [] \<or> ret_pc ?r \<noteq> [])" by simp
  have h3: "new_cc (tick [svc ''db''] (c_cc watching_db) [] []) = []
     \<and> new_pc (tick [svc ''db''] (c_cc watching_db) [] []) = []"
    by (simp add: watching_db_def tick_db_still_failing)
  have h4: "dump sample_codec None (new_state (tick [svc ''db''] (c_cc watching_db) [] [])) Map.empty
        = (None, [stateKey \<mapsto> ''db;''])"
    by (simp add: watching_db_def tick_db_still_failing dump_def marshal_sample)
  have m: "Marshal sample_codec (map_option elems (Some (mk_slice [svc ''db'', svc ''api'']))) = Inr ''db;api;''"
    by (simp add: marshal_sample)
  from Next_persists_before_return [of sample_codec None
      "[TimerC (Inr [svc ''db'']) None, TimerC (Inr [svc ''db'', svc ''api'']) None]" watching_db Map.empty ?r
      "[svc ''db'']" None "[stateKey \<mapsto> ''db;'']"] h1 h2 h3 h4 m
  show ?thesis by blast
qed

text \<open>
  \<^bold>\<open>C3.\<close> No service identifier is both in the newly-passing and in the
  newly-critical output of one tick: what the passing loop emits is absent from the
  live set, what the critical loop emits comes from the live set.
\<close>

theorem tick_passing_critical_disjoint:
  "ids (new_pc (tick hc so [] [])) \<inter> ids (new_cc (tick hc so [] [])) = {}"
proof -
  define r where "r = tick hc so [] []"
  have a: "\<forall>p\<in>set (new_pc r). ServiceID p \<notin> ids hc \<and> set (new_cc r) \<subseteq> set hc"
  proof (cases so)
    case None
    obtain cc' so' lg' where c: "critical_loop hc None [] [] = (cc', so', lg')"
      by (cases "critical_loop hc None [] []") auto
    show ?thesis using tick_None [OF c, of "[]"] None by (simp add: r_def)
  next
    case (Some s)
    obtain pc' s1 lg1 where p: "passing_loop hc 0 (len s) s [] [] = (pc', s1, lg1)"
      by (cases "passing_loop hc 0 (len s) s [] []") auto
    obtain cc' so' lg' where c: "critical_loop hc (Some s1) [] lg1 = (cc', so', lg')"
      by (cases "critical_loop hc (Some s1) [] lg1") auto
    from passing_loop_absent [OF p] have "\<forall>p\<in>set pc'. ServiceID p \<notin> ids hc"
      by (auto simp: pos_absent_iff)
    moreover from critical_loop_from [OF c] have "set cc' \<subseteq> set hc" by auto
    ultimately show ?thesis using tick_Some [OF p c] Some by (simp add: r_def)
  qed
  then have "ids (new_pc r) \<inter> ids (new_cc r) = {}" by (auto simp: ids_def)
  then show ?thesis by (simp add: r_def)
qed



text \<open>
  \<^bold>\<open>C5.\<close> \<open>load\<close> returns the empty slice and no error when the state key does not
  exist. When the key exists and \<open>Unmarshal\<close> fails on its bytes, \<open>load\<close> returns
  that error, and a call of \<open>Next\<close> that has to load returns it at once, with no
  event and with the store untouched. The field \<open>c.cc\<close> then holds what \<open>Unmarshal\<close>
  left in the slice.
\<close>

theorem load_missing_or_corrupt:
  "(kv stateKey = None \<longrightarrow>
      load J None kv = (Some (mk_slice []), None) \<and> view (fst (load J None kv)) = [])
   \<and> (kv2 stateKey = Some v \<and> Unmarshal J v = (chs, Some e) \<longrightarrow>
        snd (load J None kv2) = Some e \<and>
        (c_cc c = None \<longrightarrow>
           (\<exists>r. Next J None evs c kv2 = Some r \<and> exit r = AtLoad \<and> ret_err r = Some e \<and>
                 ret_cc r = [] \<and> ret_pc r = [] \<and> store r = kv2 \<and>
                 client r = c\<lparr>c_cc := map_option mk_slice chs\<rparr>)))"
  by (auto simp: load_def Next_def Let_def view_def mk_slice_def elems_def)

theorem load_missing_or_corrupt_witness:
  "(Map.empty :: kvstore) stateKey = None
   \<and> load sample_codec None Map.empty = (Some (mk_slice []), None)
   \<and> [stateKey \<mapsto> ''web;db''] stateKey = Some ''web;db''
   \<and> Unmarshal sample_codec ''web;db'' = (Some [], Some ''unexpected end of input'')
   \<and> c_cc fresh_client = None
   \<and> snd (load sample_codec None [stateKey \<mapsto> ''web;db'']) = Some ''unexpected end of input''
   \<and> (\<exists>r. Next sample_codec None [TimerC (Inr [svc ''web'']) None] fresh_client [stateKey \<mapsto> ''web;db'']
            = Some r \<and> exit r = AtLoad \<and> ret_err r = Some ''unexpected end of input'' \<and>
          ret_cc r = [] \<and> ret_pc r = [] \<and> store r = [stateKey \<mapsto> ''web;db''])"
proof -
  have h1: "(Map.empty :: kvstore) stateKey = None" by simp
  have h2: "[stateKey \<mapsto> ''web;db''] stateKey = Some ''web;db''
     \<and> Unmarshal sample_codec ''web;db'' = (Some [], Some ''unexpected end of input'')"
    by (simp add: sample_codec_def)
  have h3: "c_cc fresh_client = None" by (simp add: fresh_client_def)
  from load_missing_or_corrupt [of Map.empty sample_codec "[stateKey \<mapsto> ''web;db'']" "''web;db''"
      "Some []" "''unexpected end of input''" fresh_client "[TimerC (Inr [svc ''web'']) None]"] h1 h2 h3
  show ?thesis by blast
qed



text \<open>
  \<^bold>\<open>C7.\<close> \<open>Unlock\<close> on a client whose lock channel is nil panics with
  \<open>not locked\<close>; it does not return. The channel is nil in every client in which no
  acquisition has succeeded: in the client that \<open>New\<close> returns there, and after a \<open>Lock\<close>
  that returned an error. \<open>consul/consul.go\<close> has no release operation of its own:
  its \<open>Close\<close> releases under the guard \<open>c.locked\<close>, and every client that its \<open>New\<close>
  returns holds the lock.
\<close>

theorem Unlock_when_not_locked:
  "(lockCh c = None \<longrightarrow> Unlock release_err c = Panicked (Panic ''not locked''))
   \<and> (New_v client_err created = Inr c \<longrightarrow> lockCh c = None)
   \<and> (lockCh c = None \<and> Lock rs c = Some (Returned (Some e, c')) \<longrightarrow> lockCh c' = None)
   \<and> (New leader_err created2 rs2 = Some (Inr c2) \<longrightarrow> locked c2 \<and> lock c2 \<noteq> None)"
  by (auto simp: Unlock_def New_v_def Lock_def split: option.splits sum.splits dest: New_locked)

theorem Unlock_when_not_locked_witness:
  "lockCh fresh_client_v = None
   \<and> Unlock None fresh_client_v = Panicked (Panic ''not locked'')
   \<and> New_v None (Inr ''session-1'') = Inr fresh_client_v
   \<and> Lock [Inr False, Inl ''connection refused''] fresh_client_v
        = Some (Returned (Some ''connection refused'', fresh_client_v))
   \<and> New None (Inr ''session-1'') [(None, Inr False), (None, Inr True)] = Some (Inr fresh_client)
   \<and> locked fresh_client"
proof -
  have h1: "lockCh fresh_client_v = None" by (simp add: fresh_client_v_def)
  have h2: "New_v None (Inr ''session-1'') = Inr fresh_client_v"
    by (simp add: New_v_def fresh_client_v_def)
  have h3: "Lock [Inr False, Inl ''connection refused''] fresh_client_v
        = Some (Returned (Some ''connection refused'', fresh_client_v))"
    by (simp add: Lock_def fresh_client_v_def)
  have h4: "New None (Inr ''session-1'') [(None, Inr False), (None, Inr True)] = Some (Inr fresh_client)"
    by (simp add: New_def startSession_def fresh_client_def)
  from Unlock_when_not_locked [of fresh_client_v None None "Inr ''session-1''"
      "[Inr False, Inl ''connection refused'']" "''connection refused''" fresh_client_v
      None "Inr ''session-1''" "[(None, Inr False), (None, Inr True)]" fresh_client] h1 h2 h3 h4
  show ?thesis by blast
qed




text \<open>
  \<^bold>\<open>C9.\<close> When \<open>Next\<close> leaves through the stop case, it returns no critical checks,
  no passing checks and no error.
\<close>

theorem Next_stop_returns_nothing:
  "Next J get_err evs c kv = Some r \<Longrightarrow> exit r = AtStop \<Longrightarrow>
     ret_cc r = [] \<and> ret_pc r = [] \<and> ret_err r = None"
  unfolding Next_def
  by (auto simp: Let_def split: if_splits dest: Next_loop_stop)

theorem Next_stop_returns_nothing_witness:
  "Next sample_codec None [TimerC (Inr []) None, StopCh] fresh_client Map.empty =
     Some \<lparr>exit = AtStop, ret_cc = [], ret_pc = [], ret_err = None,
           client = fresh_client\<lparr>c_cc := Some (mk_slice [])\<rparr>, store = [stateKey \<mapsto> []]\<rparr>
   \<and> exit \<lparr>exit = AtStop, ret_cc = [], ret_pc = [], ret_err = None,
           client = fresh_client\<lparr>c_cc := Some (mk_slice [])\<rparr>, store = [stateKey \<mapsto> []]\<rparr> = AtStop"
proof -
  have h1: "Next sample_codec None [TimerC (Inr []) None, StopCh] fresh_client Map.empty =
     Some \<lparr>exit = AtStop, ret_cc = [], ret_pc = [], ret_err = None,
           client = fresh_client\<lparr>c_cc := Some (mk_slice [])\<rparr>, store = [stateKey \<mapsto> []]\<rparr>"
    by (simp add: Next_def load_def fresh_client_def tick_nothing dump_def marshal_sample)
  have h2: "exit \<lparr>exit = AtStop, ret_cc = [], ret_pc = [], ret_err = None,
           client = fresh_client\<lparr>c_cc := Some (mk_slice [])\<rparr>, store = [stateKey \<mapsto> []]\<rparr> = AtStop"
    by simp
  from Next_stop_returns_nothing [OF h1 h2] h1 h2 show ?thesis by blast
qed

text \<open>
  \<^bold>\<open>C10.\<close> If no two checks of the snapshot in memory share a service identifier
  before a tick, none do after it. (The live set need not be free of repetitions for
  this.)
\<close>

theorem tick_keeps_uniq:
  assumes w: "wf_opt so" and u: "uniq (view so)"
  shows "uniq (view (new_state (tick hc so cc pc)))"
proof (cases so)
  case None
  obtain cc' so' lg' where c: "critical_loop hc None cc [] = (cc', so', lg')"
    by (cases "critical_loop hc None cc []") auto
  have "uniq (view so')" using critical_loop_uniq [OF _ _ c] w u None by simp
  then show ?thesis using tick_None [OF c] None by simp
next
  case (Some s)
  then have ws: "wf_slice s" using w by (simp add: wf_opt_def)
  obtain pc' s1 lg1 where p: "passing_loop hc 0 (len s) s pc [] = (pc', s1, lg1)"
    by (cases "passing_loop hc 0 (len s) s pc []") auto
  obtain cc' so' lg' where c: "critical_loop hc (Some s1) cc lg1 = (cc', so', lg')"
    by (cases "critical_loop hc (Some s1) cc lg1") auto
  have le: "len s \<le> length (arr s)" using ws by (simp add: wf_slice_def)
  from passing_loop_inv [OF order_refl le p]
  have i: "wf_slice s1" "subseq (elems s1) (elems s)" by auto
  have "uniq (elems s1)" using i(2) u Some by (auto intro: subseq_uniq simp: view_def)
  then have "uniq (view so')"
    using critical_loop_uniq [OF _ _ c] i(1) by (simp add: wf_opt_def view_def)
  then show ?thesis using tick_Some [OF p c] Some by simp
qed

theorem tick_keeps_uniq_witness:
  "wf_opt (Some (mk_slice [svc ''web'', svc ''db'', svc ''cache'']))
   \<and> uniq (view (Some (mk_slice [svc ''web'', svc ''db'', svc ''cache''])))
   \<and> uniq (view (new_state (tick [svc ''db'', svc ''api''] (Some (mk_slice [svc ''web'', svc ''db'', svc ''cache''])) [] [])))"
proof -
  have h1: "wf_opt (Some (mk_slice [svc ''web'', svc ''db'', svc ''cache'']))"
    by (simp add: wf_opt_def wf_slice_def mk_slice_def)
  have h2: "uniq (view (Some (mk_slice [svc ''web'', svc ''db'', svc ''cache''])))"
    by (simp add: uniq_def view_def elems_def mk_slice_def svc_def)
  from tick_keeps_uniq [OF h1 h2, of "[svc ''db'', svc ''api'']" "[]" "[]"] h1 h2
  show ?thesis by blast
qed

end
